theory Spec2Isabelle
  imports Main "HOL-Library.Sublist"
begin

section \<open>The script \<open>fix_types.py\<close>\<close>

text \<open>
  The script reads one text file, looks for the line that opens the declaration
  \<open>export interface TransactionLimit\<close>, looks from there for the first line that is a lone
  closing brace, keeps the file up to that line, appends a fixed block of declarations and
  writes the file back.  It prints one of two messages.

  A Python \<open>str\<close> is a sequence of Unicode code points; a code point is a natural number
  here, so that every text a UTF-8 file can hold is a value of the model.  The UTF-8 codec is
  one-to-one between the files it accepts and such sequences, so the file is modelled by its
  decoded content.  The file is opened in text mode with the default \<open>newline=None\<close>: line
  terminators are translated on reading and on writing, and both translations are part of
  the model.  \<open>os.linesep\<close> is not fixed by the script; it is a parameter of the run.

  The script has no \<open>try\<close>.  \<open>main\<close> below is the run on a file that was opened, decoded
  and, when a boundary is found, opened for writing without an exception; \<open>script\<close> is the
  run on a host where the file may be missing, may hold bytes that are not UTF-8, or may be
  refused for writing, and where the exception then ends the run before anything is printed.
\<close>

subsection \<open>Strings\<close>

type_synonym codepoint = nat
type_synonym str = "codepoint list"

definition py :: "string \<Rightarrow> str" where
  \<comment> \<open>a literal of the source, all of whose characters are ASCII\<close>
  "py s = map of_char s"

definition LF :: codepoint where
  "LF = 10"

definition CR :: codepoint where
  "CR = 13"

definition isspace :: "codepoint \<Rightarrow> bool" where
  \<comment> \<open>the code points for which \<open>str.isspace\<close> holds, which are those \<open>str.strip()\<close> removes\<close>
  "isspace c \<longleftrightarrow>
     (9 \<le> c \<and> c \<le> 13) \<or> (28 \<le> c \<and> c \<le> 32) \<or> c = 133 \<or> c = 160 \<or> c = 5760 \<or>
     (8192 \<le> c \<and> c \<le> 8202) \<or> c = 8232 \<or> c = 8233 \<or> c = 8239 \<or> c = 8287 \<or> c = 12288"

definition strip :: "str \<Rightarrow> str" where
  \<comment> \<open>\<open>s.strip()\<close>: leading, then trailing white space removed\<close>
  "strip s = rev (dropWhile isspace (rev (dropWhile isspace s)))"

fun str_in :: "str \<Rightarrow> str \<Rightarrow> bool" where
  \<comment> \<open>\<open>sub in s\<close>: \<open>sub\<close> occurs in \<open>s\<close> as a contiguous run, compared code point by code point\<close>
  "str_in sub [] \<longleftrightarrow> sub = []"
| "str_in sub (c # cs) \<longleftrightarrow> prefix sub (c # cs) \<or> str_in sub cs"

subsection \<open>The text layer of \<open>open\<close>\<close>

datatype platform = Posix | Windows

fun linesep :: "platform \<Rightarrow> str" where
  \<comment> \<open>\<open>os.linesep\<close>\<close>
  "linesep Posix = [LF]"
| "linesep Windows = [CR, LF]"

fun universal_newlines :: "str \<Rightarrow> str" where
  \<comment> \<open>reading with \<open>newline=None\<close>: each of CR LF, CR and LF arrives as LF\<close>
  "universal_newlines [] = []"
| "universal_newlines [c] = [if c = CR then LF else c]"
| "universal_newlines (c # d # cs) =
     (if c = CR \<and> d = LF then LF # universal_newlines cs
      else if c = CR then LF # universal_newlines (d # cs)
      else c # universal_newlines (d # cs))"

fun newline_out :: "platform \<Rightarrow> str \<Rightarrow> str" where
  \<comment> \<open>writing with \<open>newline=None\<close>: each LF leaves as \<open>os.linesep\<close>\<close>
  "newline_out p [] = []"
| "newline_out p (c # cs) = (if c = LF then linesep p else [c]) @ newline_out p cs"

fun readlines :: "str \<Rightarrow> str list" where
  \<comment> \<open>\<open>f.readlines()\<close> on the translated text: a line ends after each LF and keeps it;
      what follows the last LF, when not empty, is the last line\<close>
  "readlines [] = []"
| "readlines (c # cs) =
     (if c = LF then [c] # readlines cs
      else (case readlines cs of [] \<Rightarrow> [[c]] | l # ls \<Rightarrow> (c # l) # ls))"

definition writelines :: "str list \<Rightarrow> str" where
  \<comment> \<open>\<open>f.writelines(xs)\<close>: the elements one after the other, nothing between them\<close>
  "writelines xs = concat xs"

subsection \<open>The constants of the script\<close>

definition marker :: str where
  "marker = py ''export interface TransactionLimit''"

definition close_brace :: str where
  "close_brace = py ''}''"

definition new_types :: str where
  "new_types =
     py ''\<newline>''
     @ py ''export interface AntiFraudRule {\<newline>''
     @ py ''  ruleId: string;\<newline>''
     @ py ''  ruleName: string;\<newline>''
     @ py ''  keyFingerprint?: string;\<newline>''
     @ py ''  createdAt: number;\<newline>''
     @ py ''  expiresAt?: number;\<newline>''
     @ py ''}\<newline>''
     @ py ''\<newline>''
     @ py ''export interface KeyVerificationResult {\<newline>''
     @ py ''  verified: boolean;\<newline>''
     @ py ''  error?: string;\<newline>''
     @ py ''  timestamp: number;\<newline>''
     @ py ''  method?: 'manual' | 'biometric' | 'automatic';\<newline>''
     @ py ''}\<newline>''
     @ py ''\<newline>''
     @ py ''export interface KeyExchangeSession {\<newline>''
     @ py ''  sessionId: string;\<newline>''
     @ py ''  chatId: string;\<newline>''
     @ py ''  participantId: string;\<newline>''
     @ py ''  status: 'pending' | 'key_exchange' | 'established' | 'verified' | 'failed';\<newline>''
     @ py ''  keyFingerprint?: string;\<newline>''
     @ py ''  createdAt: number;\<newline>''
     @ py ''  updatedAt: number;\<newline>''
     @ py ''}\<newline>''
     @ py ''\<newline>''
     @ py ''export type DLPCategory = 'financial' | 'personal' | 'health' | 'profanity' | 'custom';\<newline>''
     @ py ''\<newline>''
     @ py ''export interface DLPViolation {\<newline>''
     @ py ''  category: DLPCategory;\<newline>''
     @ py ''  matches: string[];\<newline>''
     @ py ''  confidence: number;\<newline>''
     @ py ''  startIndex: number;\<newline>''
     @ py ''  endIndex: number;\<newline>''
     @ py ''}\<newline>''
     @ py ''\<newline>''
     @ py ''export interface E2EEMessage {\<newline>''
     @ py ''  id: string;\<newline>''
     @ py ''  senderId: string;\<newline>''
     @ py ''  content: string; // Encrypted content\<newline>''
     @ py ''  timestamp: number;\<newline>''
     @ py ''  protocolVersion: number;\<newline>''
     @ py ''  iv: string;\<newline>''
     @ py ''  senderKeyId?: number;\<newline>''
     @ py ''  receiverKeyId?: number;\<newline>''
     @ py ''  signature?: string;\<newline>''
     @ py ''}\<newline>''"

subsection \<open>The search for the end of the declaration\<close>

fun inner_loop :: "str list \<Rightarrow> nat list \<Rightarrow> int" where
  \<comment> \<open>\<open>for j in range(i, len(lines))\<close>, run over the values of \<open>j\<close> still to come; the result
      is \<open>limit_end_index\<close> when the loop is left\<close>
  "inner_loop lines [] = - 1"
| "inner_loop lines (j # js) =
     (if strip (lines ! j) = close_brace then int j else inner_loop lines js)"

fun outer_loop :: "str list \<Rightarrow> (nat \<times> str) list \<Rightarrow> int" where
  \<comment> \<open>\<open>for i, line in enumerate(lines)\<close>, run over the pairs still to come; the loop is left
      after the first line that holds the marker, whatever the inner loop found\<close>
  "outer_loop lines [] = - 1"
| "outer_loop lines ((i, line) # rest) =
     (if str_in marker line then inner_loop lines [i ..< length lines]
      else outer_loop lines rest)"

definition limit_end_index :: "str list \<Rightarrow> int" where
  "limit_end_index lines = outer_loop lines (enumerate 0 lines)"

definition slice_to :: "'a list \<Rightarrow> int \<Rightarrow> 'a list" where
  \<comment> \<open>\<open>xs[:k]\<close>; a negative \<open>k\<close> counts from the end\<close>
  "slice_to xs k =
     (if 0 \<le> k then take (nat k) xs else take (length xs - nat (- k)) xs)"

subsection \<open>The run\<close>

record world =
  disk :: str
  writes :: nat
  stdout :: "string list"

definition lines_of :: "str \<Rightarrow> str list" where
  \<comment> \<open>\<open>with open(file_path, 'r', encoding='utf-8') as f: lines = f.readlines()\<close>, on a file
      whose decoded content is \<open>doc\<close>\<close>
  "lines_of doc = readlines (universal_newlines doc)"

definition main :: "platform \<Rightarrow> world \<Rightarrow> world" where
  \<comment> \<open>\<open>disk\<close> is the decoded content of the file at \<open>file_path\<close>, \<open>writes\<close> counts the times
      the file was opened for writing, \<open>stdout\<close> holds the printed lines\<close>
  "main p w =
     (let lines = lines_of (disk w);
          limit_end_index = limit_end_index lines
      in if limit_end_index \<noteq> - 1 then
           (let new_content = slice_to lines (limit_end_index + 1) @ [new_types]
            in w\<lparr>disk := newline_out p (writelines new_content),
                 writes := writes w + 1,
                 stdout := stdout w @ [''File fixed successfully.'']\<rparr>)
         else w\<lparr>stdout := stdout w @ [''TransactionLimit not found.'']\<rparr>)"

definition start :: "str \<Rightarrow> world" where
  \<comment> \<open>the world before a first run on a file that holds \<open>doc\<close>\<close>
  "start doc = \<lparr>disk = doc, writes = 0, stdout = []\<rparr>"

subsection \<open>The run on a host\<close>






subsection \<open>The words of the specification\<close>

definition is_anchor_start :: "str list \<Rightarrow> nat \<Rightarrow> bool" where
  \<comment> \<open>Specification, Anchor Locator step 1: line \<open>i\<close> is the first line that contains the
      marker\<close>
  "is_anchor_start lines i \<longleftrightarrow>
     i < length lines \<and> str_in marker (lines ! i) \<and>
     list_all (\<lambda>l. \<not> str_in marker l) (take i lines)"

definition is_block_end :: "str list \<Rightarrow> nat \<Rightarrow> nat \<Rightarrow> bool" where
  \<comment> \<open>Specification, Anchor Locator step 2: line \<open>b\<close> is the first line, from line \<open>i\<close> on,
      whose content without the surrounding white space is exactly the closing brace\<close>
  "is_block_end lines i b \<longleftrightarrow>
     i \<le> b \<and> b < length lines \<and> strip (lines ! b) = close_brace \<and>
     list_all (\<lambda>l. strip l \<noteq> close_brace) (take (b - i) (drop i lines))"

definition brace_with_others :: "str \<Rightarrow> bool" where
  \<comment> \<open>Specification: the line contains a closing brace together with other characters that
      are not white space\<close>
  "brace_with_others l \<longleftrightarrow>
     of_char CHR ''}'' \<in> set l \<and> filter (\<lambda>c. \<not> isspace c) l \<noteq> close_brace"

subsection \<open>Example documents\<close>

definition doc_scenario :: str where
  \<comment> \<open>the concrete scenario of the specification\<close>
  "doc_scenario =
     py ''export interface TransactionLimit {\<newline>''
     @ py ''  amount: number;\<newline>''
     @ py ''}\<newline>''
     @ py ''export interface Other { x: number; }\<newline>''"

definition doc_replaced :: str where
  \<comment> \<open>the scenario with other lines after the boundary, a second lone brace among them\<close>
  "doc_replaced =
     py ''export interface TransactionLimit {\<newline>''
     @ py ''  amount: number;\<newline>''
     @ py ''}\<newline>''
     @ py ''type Id = string;\<newline>''
     @ py ''}\<newline>''"

definition doc_other :: str where
  \<comment> \<open>no line contains the marker\<close>
  "doc_other =
     py ''export interface Other { x: number; }\<newline>''
     @ py ''}\<newline>''"

definition doc_semicolon :: str where
  \<comment> \<open>a lone brace before the marker, and the declaration closed by a brace and a semicolon\<close>
  "doc_semicolon =
     py ''}\<newline>''
     @ py ''export interface TransactionLimit {\<newline>''
     @ py ''  amount: number;\<newline>''
     @ py ''};\<newline>''"

definition doc_brace_twice :: str where
  \<comment> \<open>a lone brace before the marker, two lines with the marker, two lone braces after\<close>
  "doc_brace_twice =
     py ''}\<newline>''
     @ py ''export interface TransactionLimit {\<newline>''
     @ py ''export interface TransactionLimit2 {\<newline>''
     @ py ''}\<newline>''
     @ py ''}\<newline>''"

definition doc_lf :: str where
  \<comment> \<open>the boundary is the last line; LF terminators\<close>
  "doc_lf =
     py ''export interface TransactionLimit {\<newline>''
     @ py ''}\<newline>''"

definition doc_crlf :: str where
  \<comment> \<open>the same two lines with CR LF terminators\<close>
  "doc_crlf =
     py ''export interface TransactionLimit {'' @ [CR, LF]
     @ py ''}'' @ [CR, LF]"

definition doc_unterminated :: str where
  \<comment> \<open>the same two lines, the last one without a terminator\<close>
  "doc_unterminated =
     py ''export interface TransactionLimit {\<newline>''
     @ py ''}''"

section \<open>Properties\<close>

subsection \<open>The two loops\<close>

lemma str_in_iff: "str_in sub s \<longleftrightarrow> (\<exists>ps ss. s = ps @ sub @ ss)"
proof (induction s)
  case Nil
  then show ?case by auto
next
  case (Cons c cs)
  show ?case
  proof
    assume "str_in sub (c # cs)"
    then consider "prefix sub (c # cs)" | "str_in sub cs" by auto
    then show "\<exists>ps ss. c # cs = ps @ sub @ ss"
    proof cases
      case 1
      then obtain ss where "c # cs = sub @ ss" by (auto simp: prefix_def)
      then have "c # cs = [] @ sub @ ss" by simp
      then show ?thesis by blast
    next
      case 2
      then obtain ps ss where "cs = ps @ sub @ ss" using Cons.IH by blast
      then have "c # cs = (c # ps) @ sub @ ss" by simp
      then show ?thesis by blast
    qed
  next
    assume "\<exists>ps ss. c # cs = ps @ sub @ ss"
    then obtain ps ss where e: "c # cs = ps @ sub @ ss" by blast
    show "str_in sub (c # cs)"
    proof (cases ps)
      case Nil
      then have "prefix sub (c # cs)" using e by (simp add: prefix_def)
      then show ?thesis by simp
    next
      case (Cons a as)
      then have "cs = as @ sub @ ss" using e by simp
      then have "str_in sub cs" using Cons.IH by blast
      then show ?thesis by simp
    qed
  qed
qed

lemma inner_loop_upt_eq:
  "inner_loop lines [i ..< n] = int b \<longleftrightarrow>
     i \<le> b \<and> b < n \<and> strip (lines ! b) = close_brace \<and>
     (\<forall>j. i \<le> j \<and> j < b \<longrightarrow> strip (lines ! j) \<noteq> close_brace)"
proof (induction "n - i" arbitrary: i)
  case 0
  then show ?case by auto
next
  case (Suc d)
  then have lt: "i < n" and d: "d = n - Suc i" by auto
  have u: "[i ..< n] = i # [Suc i ..< n]" using lt by (simp add: upt_rec)
  show ?case
  proof (cases "strip (lines ! i) = close_brace")
    case True
    then show ?thesis using lt u by (auto simp: not_less)
  next
    case False
    have "inner_loop lines [i ..< n] = inner_loop lines [Suc i ..< n]"
      using False u by simp
    moreover have "i \<le> b \<and> b < n \<and> strip (lines ! b) = close_brace \<and>
        (\<forall>j. i \<le> j \<and> j < b \<longrightarrow> strip (lines ! j) \<noteq> close_brace)
      \<longleftrightarrow> Suc i \<le> b \<and> b < n \<and> strip (lines ! b) = close_brace \<and>
        (\<forall>j. Suc i \<le> j \<and> j < b \<longrightarrow> strip (lines ! j) \<noteq> close_brace)"
      using False by (metis Suc_leD Suc_leI le_neq_implies_less)
    ultimately show ?thesis using Suc.hyps(1)[OF d] by simp
  qed
qed

lemma inner_loop_range: "inner_loop lines js = - 1 \<or> (\<exists>j \<in> set js. inner_loop lines js = int j)"
  by (induction js) auto

lemma outer_loop_none:
  "\<forall>l \<in> set ls. \<not> str_in marker l \<Longrightarrow> outer_loop lines (enumerate k ls) = - 1"
  by (induction ls arbitrary: k) auto

lemma outer_loop_first:
  "m < length ls \<Longrightarrow> str_in marker (ls ! m) \<Longrightarrow> \<forall>q < m. \<not> str_in marker (ls ! q) \<Longrightarrow>
   outer_loop lines (enumerate k ls) = inner_loop lines [k + m ..< length lines]"
proof (induction ls arbitrary: k m)
  case Nil
  then show ?case by simp
next
  case (Cons l ls)
  show ?case
  proof (cases m)
    case 0
    then show ?thesis using Cons.prems by simp
  next
    case (Suc m')
    have nl: "\<not> str_in marker l" using Cons.prems(3) Suc by auto
    have "outer_loop lines (enumerate (Suc k) ls) = inner_loop lines [Suc k + m' ..< length lines]"
      using Cons.prems Suc by (intro Cons.IH) auto
    then show ?thesis using nl Suc by simp
  qed
qed

lemma first_marker:
  assumes "i < length ls" "str_in marker (ls ! i)"
  obtains m where "m \<le> i" "str_in marker (ls ! m)" "\<forall>q < m. \<not> str_in marker (ls ! q)"
proof -
  define m where "m = (LEAST q. str_in marker (ls ! q))"
  have 1: "str_in marker (ls ! m)" unfolding m_def using assms(2) by (rule LeastI)
  have 2: "m \<le> i" unfolding m_def using assms(2) by (rule Least_le)
  have 3: "\<forall>q < m. \<not> str_in marker (ls ! q)" unfolding m_def using not_less_Least by blast
  show thesis using that 1 2 3 by blast
qed

lemma limit_end_index_eq:
  "limit_end_index lines = int b \<longleftrightarrow>
     (\<exists>i \<le> b. b < length lines \<and> str_in marker (lines ! i) \<and>
        (\<forall>k < i. \<not> str_in marker (lines ! k)) \<and> strip (lines ! b) = close_brace \<and>
        (\<forall>j. i \<le> j \<and> j < b \<longrightarrow> strip (lines ! j) \<noteq> close_brace))"
  (is "?L \<longleftrightarrow> ?R")
proof
  assume L: ?L
  have "\<exists>l \<in> set lines. str_in marker l"
  proof (rule ccontr)
    assume "\<not> (\<exists>l \<in> set lines. str_in marker l)"
    then have "limit_end_index lines = - 1"
      unfolding limit_end_index_def by (intro outer_loop_none) blast
    then show False using L by simp
  qed
  then obtain i0 where "i0 < length lines" "str_in marker (lines ! i0)"
    by (auto simp: in_set_conv_nth)
  then obtain m where m: "m \<le> i0" "str_in marker (lines ! m)"
      "\<forall>q < m. \<not> str_in marker (lines ! q)"
    by (rule first_marker)
  have "m < length lines" using m(1) \<open>i0 < length lines\<close> by simp
  then have "limit_end_index lines = inner_loop lines [0 + m ..< length lines]"
    unfolding limit_end_index_def using m(2,3) by (rule outer_loop_first)
  then have "inner_loop lines [m ..< length lines] = int b" using L by simp
  then show ?R using m(2,3) inner_loop_upt_eq by blast
next
  assume ?R
  then obtain i where i: "i \<le> b" "b < length lines" "str_in marker (lines ! i)"
      "\<forall>k < i. \<not> str_in marker (lines ! k)" "strip (lines ! b) = close_brace"
      "\<forall>j. i \<le> j \<and> j < b \<longrightarrow> strip (lines ! j) \<noteq> close_brace"
    by blast
  have "i < length lines" using i(1,2) by simp
  then have "limit_end_index lines = inner_loop lines [0 + i ..< length lines]"
    unfolding limit_end_index_def using i(3,4) by (rule outer_loop_first)
  moreover have "inner_loop lines [i ..< length lines] = int b"
    using i inner_loop_upt_eq by blast
  ultimately show ?L by simp
qed

lemma outer_loop_range:
  "outer_loop lines ps = - 1 \<or> (\<exists>b < length lines. outer_loop lines ps = int b)"
proof (induction ps)
  case Nil
  then show ?case by simp
next
  case (Cons a ps)
  obtain i line where a: "a = (i, line)" by (cases a)
  show ?case
  proof (cases "str_in marker line")
    case True
    then have "outer_loop lines (a # ps) = inner_loop lines [i ..< length lines]"
      using a by simp
    then show ?thesis using inner_loop_range[of lines "[i ..< length lines]"] by auto
  next
    case False
    then show ?thesis using a Cons.IH by simp
  qed
qed

lemma limit_end_index_range:
  "limit_end_index lines = - 1 \<or> (\<exists>b < length lines. limit_end_index lines = int b)"
  unfolding limit_end_index_def by (rule outer_loop_range)

lemma inner_loop_upt_none:
  "inner_loop lines [i ..< n] = - 1 \<longleftrightarrow>
     (\<forall>j. i \<le> j \<and> j < n \<longrightarrow> strip (lines ! j) \<noteq> close_brace)"
proof -
  have "inner_loop lines js = - 1 \<longleftrightarrow> (\<forall>j \<in> set js. strip (lines ! j) \<noteq> close_brace)" for js
    by (induction js) auto
  then show ?thesis by auto
qed

lemma limit_end_index_found:
  assumes "i \<le> j" "j < length lines" "str_in marker (lines ! i)" "strip (lines ! j) = close_brace"
  shows "\<exists>b \<le> j. limit_end_index lines = int b"
proof -
  have il: "i < length lines" using assms(1,2) by simp
  obtain m where m: "m \<le> i" "str_in marker (lines ! m)"
      "\<forall>q < m. \<not> str_in marker (lines ! q)"
    using il assms(3) by (rule first_marker)
  have ml: "m < length lines" using m(1) il by simp
  have e: "limit_end_index lines = inner_loop lines [0 + m ..< length lines]"
    unfolding limit_end_index_def using ml m(2,3) by (rule outer_loop_first)
  have mj: "m \<le> j \<and> j < length lines" using m(1) assms(1,2) by simp
  have "inner_loop lines [m ..< length lines] \<noteq> - 1"
    unfolding inner_loop_upt_none using mj assms(4) by auto
  then obtain b where b: "inner_loop lines [m ..< length lines] = int b"
    using inner_loop_range[of lines "[m ..< length lines]"] by auto
  have "\<forall>q. m \<le> q \<and> q < b \<longrightarrow> strip (lines ! q) \<noteq> close_brace"
    using b unfolding inner_loop_upt_eq by simp
  then have "\<not> j < b" using mj assms(4) by auto
  then have "b \<le> j" by simp
  moreover have "limit_end_index lines = int b" using e b by simp
  ultimately show ?thesis by auto
qed

lemma limit_end_index_agree:
  assumes "limit_end_index ls = int b" "b < length ls'"
    and a3: "\<forall>k \<le> b. str_in marker (ls' ! k) = str_in marker (ls ! k)"
    and a4: "\<forall>k \<le> b. (strip (ls' ! k) = close_brace) = (strip (ls ! k) = close_brace)"
  shows "limit_end_index ls' = int b"
proof -
  obtain i where i: "i \<le> b" "b < length ls" "str_in marker (ls ! i)"
      "\<forall>k < i. \<not> str_in marker (ls ! k)" "strip (ls ! b) = close_brace"
      "\<forall>j. i \<le> j \<and> j < b \<longrightarrow> strip (ls ! j) \<noteq> close_brace"
    using assms(1) unfolding limit_end_index_eq by auto
  have 1: "str_in marker (ls' ! i)" using a3 i(1,3) by simp
  have 2: "\<forall>k < i. \<not> str_in marker (ls' ! k)" using a3 i(1,4) by simp
  have 3: "strip (ls' ! b) = close_brace" using a4 i(5) by simp
  have 4: "\<forall>j. i \<le> j \<and> j < b \<longrightarrow> strip (ls' ! j) \<noteq> close_brace"
    using a4 i(6) by simp
  show ?thesis unfolding limit_end_index_eq
    by (rule exI[of _ i]) (use i(1) assms(2) 1 2 3 4 in simp)
qed

lemma limit_end_index_prefix:
  assumes "limit_end_index ls = int b"
  shows "limit_end_index (take (Suc b) ls @ others) = int b"
proof -
  have bl: "b < length ls" using assms unfolding limit_end_index_eq by auto
  have n: "\<forall>k \<le> b. (take (Suc b) ls @ others) ! k = ls ! k"
    using bl by (simp add: nth_append)
  have l: "b < length (take (Suc b) ls @ others)" using bl by simp
  show ?thesis
    by (rule limit_end_index_agree[OF assms l]) (use n in simp_all)
qed

subsection \<open>The text layer and the lines\<close>

lemma LF_neq_CR: "LF \<noteq> CR"
  by (simp add: LF_def CR_def)

lemma universal_newlines_Cons:
  "c \<noteq> CR \<Longrightarrow> universal_newlines (c # cs) = c # universal_newlines cs"
  by (cases cs) simp_all

lemma universal_newlines_no_CR: "CR \<notin> set (universal_newlines t)"
  by (induction t rule: universal_newlines.induct) (auto simp: LF_def CR_def)

lemma universal_newlines_id: "CR \<notin> set t \<Longrightarrow> universal_newlines t = t"
  by (induction t) (simp_all add: universal_newlines_Cons)

lemma read_after_write:
  "CR \<notin> set t \<Longrightarrow> universal_newlines (newline_out p t) = t"
proof (induction t)
  case Nil
  then show ?case by simp
next
  case (Cons c cs)
  then have c: "c \<noteq> CR" and ih: "universal_newlines (newline_out p cs) = cs" by auto
  show ?case
  proof (cases "c = LF")
    case True
    then show ?thesis using ih
      by (cases p) (simp_all add: universal_newlines_Cons LF_neq_CR)
  next
    case False
    then show ?thesis using ih c by (simp add: universal_newlines_Cons)
  qed
qed

lemma newline_out_Posix: "newline_out Posix t = t"
  by (induction t) simp_all

lemma readlines_Nil_iff: "readlines t = [] \<longleftrightarrow> t = []"
  by (cases t) (auto split: list.splits)

lemma readlines_nonempty: "[] \<notin> set (readlines t)"
  by (induction t) (auto split: list.splits)

lemma concat_readlines: "concat (readlines t) = t"
  by (induction t) (auto split: list.splits)

lemma readlines_line:
  "LF \<notin> set l \<Longrightarrow> readlines (l @ LF # t) = (l @ [LF]) # readlines t"
  by (induction l) auto

lemma readlines_no_LF:
  "LF \<notin> set l \<Longrightarrow> l \<noteq> [] \<Longrightarrow> readlines l = [l]"
proof (induction l)
  case Nil
  then show ?case by simp
next
  case (Cons c cs)
  then show ?case by (cases "cs = []") auto
qed

lemma readlines_elems:
  "l \<in> set (readlines t) \<Longrightarrow> l \<noteq> [] \<and> LF \<notin> set (butlast l)"
  by (induction t arbitrary: l) (auto split: if_splits list.splits)

lemma readlines_butlast:
  "l \<in> set (butlast (readlines t)) \<Longrightarrow> last l = LF"
proof (induction t arbitrary: l)
  case Nil
  then show ?case by simp
next
  case (Cons c cs)
  show ?case
  proof (cases "c = LF")
    case True
    then show ?thesis using Cons by (auto split: if_splits)
  next
    case False
    show ?thesis
    proof (cases "readlines cs")
      case Nil
      then show ?thesis using Cons.prems False by simp
    next
      case (Cons x xs)
      have xne: "x \<noteq> []" using readlines_nonempty[of cs] Cons by auto
      show ?thesis
      proof (cases "xs = []")
        case True
        then show ?thesis using Cons.prems(1) False Cons by simp
      next
        case xs: False
        then have "l = c # x \<or> l \<in> set (butlast xs)"
          using Cons.prems(1) False Cons by auto
        moreover have "last x = LF" using Cons.IH[of x] Cons xs by simp
        moreover have "l \<in> set (butlast xs) \<Longrightarrow> last l = LF"
          using Cons.IH[of l] Cons xs by simp
        ultimately show ?thesis using xne by auto
      qed
    qed
  qed
qed

lemma strip_app_LF: "strip (l @ [LF]) = strip l"
proof (cases "\<forall>c \<in> set l. isspace c")
  case True
  have sp: "isspace LF" by (simp add: isspace_def LF_def)
  have a: "dropWhile isspace l = []" using True by simp
  have "dropWhile isspace (l @ [LF]) = dropWhile isspace [LF]"
    using True by (intro dropWhile_append2) simp
  then have b: "dropWhile isspace (l @ [LF]) = []" using sp by simp
  show ?thesis unfolding strip_def a b by simp
next
  case False
  have sp: "isspace LF" by (simp add: isspace_def LF_def)
  have "dropWhile isspace (l @ [LF]) = dropWhile isspace l @ [LF]"
    using False by (auto simp: dropWhile_append)
  then show ?thesis using sp by (simp add: strip_def)
qed

lemma str_in_app: "str_in m l \<Longrightarrow> str_in m (l @ x)"
proof -
  assume "str_in m l"
  then obtain ps ss where "l = ps @ m @ ss" unfolding str_in_iff by blast
  then have "l @ x = ps @ m @ (ss @ x)" by simp
  then show ?thesis unfolding str_in_iff by blast
qed

lemma strip_decomp:
  "\<exists>a z. l = a @ strip l @ z \<and> (\<forall>c \<in> set a. isspace c) \<and> (\<forall>c \<in> set z. isspace c)"
proof -
  define d where "d = dropWhile isspace l"
  have 1: "l = takeWhile isspace l @ d" by (simp add: d_def)
  have "rev (takeWhile isspace (rev d) @ dropWhile isspace (rev d)) = d"
    by (simp only: takeWhile_dropWhile_id rev_rev_ident)
  then have "rev (dropWhile isspace (rev d)) @ rev (takeWhile isspace (rev d)) = d"
    by (simp only: rev_append)
  then have 2: "d = strip l @ rev (takeWhile isspace (rev d))"
    unfolding strip_def d_def by (rule sym)
  have 3: "\<forall>c \<in> set (takeWhile isspace l). isspace c" by (auto dest: set_takeWhileD)
  have 4: "\<forall>c \<in> set (rev (takeWhile isspace (rev d))). isspace c"
    by (auto dest: set_takeWhileD)
  have "l = takeWhile isspace l @ strip l @ rev (takeWhile isspace (rev d))"
    using 1 2 by simp
  then show ?thesis using 3 4 by blast
qed

lemma close_brace_eq: "close_brace = [125]"
  by (simp add: close_brace_def py_def)

lemma strip_close_filter:
  assumes "strip l = close_brace"
  shows "filter (\<lambda>c. \<not> isspace c) l = close_brace"
proof -
  obtain a z where l: "l = a @ strip l @ z" and a: "\<forall>c \<in> set a. isspace c"
      and z: "\<forall>c \<in> set z. isspace c"
    using strip_decomp by blast
  have fa: "filter (\<lambda>c. \<not> isspace c) a = []" using a by (simp add: filter_empty_conv)
  have fz: "filter (\<lambda>c. \<not> isspace c) z = []" using z by (simp add: filter_empty_conv)
  have fc: "filter (\<lambda>c. \<not> isspace c) close_brace = close_brace"
    by (simp add: close_brace_eq isspace_def)
  have "filter (\<lambda>c. \<not> isspace c) l = filter (\<lambda>c. \<not> isspace c) (a @ close_brace @ z)"
    using l assms by simp
  then show ?thesis using fa fz fc by simp
qed

lemma readlines_concat:
  "\<forall>l \<in> set ps. l \<noteq> [] \<and> last l = LF \<and> LF \<notin> set (butlast l) \<Longrightarrow>
   readlines (concat ps @ t) = ps @ readlines t"
proof (induction ps)
  case Nil
  then show ?case by simp
next
  case (Cons l ps)
  then have l: "l \<noteq> []" "last l = LF" "LF \<notin> set (butlast l)" by auto
  have e: "l = butlast l @ [LF]" using l(1,2) by (metis append_butlast_last_id)
  have "readlines (concat (l # ps) @ t) = readlines (butlast l @ LF # (concat ps @ t))"
    using e by (metis append_Cons append_Nil append_assoc concat.simps(2))
  also have "\<dots> = (butlast l @ [LF]) # readlines (concat ps @ t)"
    using l(3) by (rule readlines_line)
  also have "\<dots> = l # ps @ readlines t" using e Cons by simp
  finally show ?case by simp
qed

lemma set_take_butlast: "b < length ls \<Longrightarrow> set (take b ls) \<subseteq> set (butlast ls)"
proof -
  assume "b < length ls"
  then have "take b ls = take b (butlast ls)" by (simp add: take_butlast)
  then show ?thesis by (metis set_take_subset)
qed

lemma readlines_take:
  assumes "b < length (readlines t)" "l \<in> set (take b (readlines t))"
  shows "l \<noteq> [] \<and> last l = LF \<and> LF \<notin> set (butlast l)"
proof -
  have "l \<in> set (butlast (readlines t))" using assms set_take_butlast by blast
  then have "last l = LF" by (rule readlines_butlast)
  moreover have "l \<in> set (readlines t)" using assms(2) by (rule in_set_takeD)
  ultimately show ?thesis using readlines_elems by blast
qed

subsection \<open>One run, and a run on the result\<close>

lemma slice_to_Suc: "slice_to xs (int b + 1) = take (Suc b) xs"
  by (simp add: slice_to_def nat_add_distrib)

lemma main_found:
  assumes "limit_end_index (lines_of (disk w)) = int b"
  shows "main p w =
    w\<lparr>disk := newline_out p (concat (take (Suc b) (lines_of (disk w))) @ new_types),
      writes := writes w + 1,
      stdout := stdout w @ [''File fixed successfully.'']\<rparr>"
proof -
  have "int b \<noteq> - 1" by simp
  then show ?thesis
    unfolding main_def Let_def assms by (simp add: slice_to_Suc writelines_def)
qed

lemma main_not_found:
  assumes "limit_end_index (lines_of (disk w)) = - 1"
  shows "main p w = w\<lparr>stdout := stdout w @ [''TransactionLimit not found.'']\<rparr>"
  unfolding main_def Let_def assms by simp

lemma lines_of_no_CR: "l \<in> set (lines_of doc) \<Longrightarrow> CR \<notin> set l"
proof -
  assume l: "l \<in> set (lines_of doc)"
  have "set l \<subseteq> set (concat (lines_of doc))" using l by auto
  then have "set l \<subseteq> set (universal_newlines doc)"
    by (simp add: lines_of_def concat_readlines)
  then show ?thesis using universal_newlines_no_CR by blast
qed

lemma new_types_no_CR: "CR \<notin> set new_types"
  by (simp add: new_types_def py_def CR_def)

lemma new_types_Cons: "new_types = LF # tl new_types"
  by (simp add: new_types_def py_def LF_def)

lemma written_no_CR: "CR \<notin> set (concat (take k (lines_of doc)) @ new_types)"
  using lines_of_no_CR new_types_no_CR by (auto dest: in_set_takeD)

lemma reread:
  assumes "limit_end_index (lines_of (disk w)) = int b"
  shows "universal_newlines (disk (main p w)) =
    concat (take (Suc b) (lines_of (disk w))) @ new_types"
  unfolding main_found[OF assms] using written_no_CR by (simp add: read_after_write)

lemma limit_lt_length:
  "limit_end_index ls = int b \<Longrightarrow> b < length ls"
  unfolding limit_end_index_eq by auto

lemma lines_of_take:
  assumes "b < length (lines_of doc)" "l \<in> set (take b (lines_of doc))"
  shows "l \<noteq> [] \<and> last l = LF \<and> LF \<notin> set (butlast l)"
  using assms unfolding lines_of_def by (rule readlines_take)

lemma lines_of_nth:
  assumes "b < length (lines_of doc)"
  shows "lines_of doc ! b \<noteq> [] \<and> LF \<notin> set (butlast (lines_of doc ! b))"
proof -
  have "lines_of doc ! b \<in> set (readlines (universal_newlines doc))"
    using assms by (simp add: lines_of_def)
  then show ?thesis by (rule readlines_elems)
qed

lemma not_in_butlast_last:
  "l \<noteq> [] \<Longrightarrow> x \<notin> set (butlast l) \<Longrightarrow> last l \<noteq> x \<Longrightarrow> x \<notin> set l"
  by (cases l rule: rev_cases) auto

lemma second_lines_terminated:
  assumes f: "limit_end_index (lines_of (disk w)) = int b"
    and t: "last (lines_of (disk w) ! b) = LF"
  shows "lines_of (disk (main p w)) = take (Suc b) (lines_of (disk w)) @ readlines new_types"
proof -
  define ls where "ls = lines_of (disk w)"
  have bl: "b < length ls" using f unfolding ls_def by (rule limit_lt_length)
  have "\<forall>l \<in> set (take (Suc b) ls). l \<noteq> [] \<and> last l = LF \<and> LF \<notin> set (butlast l)"
  proof
    fix l assume "l \<in> set (take (Suc b) ls)"
    then have "l \<in> set (take b ls) \<or> l = ls ! b"
      using bl by (auto simp: take_Suc_conv_app_nth)
    then show "l \<noteq> [] \<and> last l = LF \<and> LF \<notin> set (butlast l)"
    proof
      assume "l \<in> set (take b ls)"
      then show ?thesis using lines_of_take[of b "disk w" l] bl unfolding ls_def by simp
    next
      assume "l = ls ! b"
      then show ?thesis using lines_of_nth[of b "disk w"] bl t unfolding ls_def by simp
    qed
  qed
  then have "readlines (concat (take (Suc b) ls) @ new_types) = take (Suc b) ls @ readlines new_types"
    by (rule readlines_concat)
  then show ?thesis
    unfolding lines_of_def[of "disk (main p w)"] reread[OF f] ls_def .
qed

lemma second_lines_unterminated:
  assumes f: "limit_end_index (lines_of (disk w)) = int b"
    and t: "last (lines_of (disk w) ! b) \<noteq> LF"
  shows "lines_of (disk (main p w)) =
    take b (lines_of (disk w)) @ ((lines_of (disk w) ! b @ [LF]) # readlines (tl new_types))"
proof -
  define ls where "ls = lines_of (disk w)"
  have bl: "b < length ls" using f unfolding ls_def by (rule limit_lt_length)
  have pre: "\<forall>l \<in> set (take b ls). l \<noteq> [] \<and> last l = LF \<and> LF \<notin> set (butlast l)"
  proof
    fix l assume "l \<in> set (take b ls)"
    then show "l \<noteq> [] \<and> last l = LF \<and> LF \<notin> set (butlast l)"
      using lines_of_take[of b "disk w" l] bl unfolding ls_def by simp
  qed
  have nb: "ls ! b \<noteq> []" "LF \<notin> set (butlast (ls ! b))"
    using lines_of_nth[of b "disk w"] bl unfolding ls_def by simp_all
  have t': "last (ls ! b) \<noteq> LF" using t unfolding ls_def .
  have noLF: "LF \<notin> set (ls ! b)"
    using nb(1) nb(2) t' by (rule not_in_butlast_last)
  have c: "concat (take (Suc b) ls) = concat (take b ls) @ ls ! b"
    using bl by (simp add: take_Suc_conv_app_nth)
  have "concat (take (Suc b) ls) @ new_types
      = concat (take (Suc b) ls) @ (LF # tl new_types)"
    by (rule arg_cong[OF new_types_Cons])
  also have "\<dots> = concat (take b ls) @ (ls ! b @ LF # tl new_types)"
    unfolding c by simp
  finally have "readlines (concat (take (Suc b) ls) @ new_types)
      = readlines (concat (take b ls) @ (ls ! b @ LF # tl new_types))"
    by (rule arg_cong)
  also have "\<dots> = take b ls @ readlines (ls ! b @ LF # tl new_types)"
    using pre by (rule readlines_concat)
  also have "readlines (ls ! b @ LF # tl new_types) = (ls ! b @ [LF]) # readlines (tl new_types)"
    using noLF by (rule readlines_line)
  finally show ?thesis
    unfolding lines_of_def[of "disk (main p w)"] reread[OF f] ls_def .
qed

lemma marker_no_LF: "LF \<notin> set marker \<and> marker \<noteq> []"
  by (simp add: marker_def py_def LF_def)

lemma str_in_app_LF:
  assumes "str_in marker (l @ [LF])"
  shows "str_in marker l"
proof -
  obtain ps ss where e: "l @ [LF] = ps @ marker @ ss"
    using assms unfolding str_in_iff by blast
  show ?thesis
  proof (cases ss rule: rev_cases)
    case Nil
    have "marker = butlast marker @ [last marker]" using marker_no_LF by simp
    then have "ps @ marker @ ss = (ps @ butlast marker) @ [last marker]"
      using Nil by (metis append_Nil2 append_assoc)
    then have "l @ [LF] = (ps @ butlast marker) @ [last marker]"
      using e by simp
    then have "last marker = LF" by (simp only: append1_eq_conv)
    then have "LF \<in> set marker" using marker_no_LF last_in_set by metis
    then show ?thesis using marker_no_LF by simp
  next
    case (snoc ss' x)
    then have "l @ [LF] = (ps @ marker @ ss') @ [x]" using e by simp
    then have "l = ps @ marker @ ss'" by (simp only: append1_eq_conv)
    then show ?thesis unfolding str_in_iff by blast
  qed
qed

lemma second_run_same_index:
  assumes f: "limit_end_index (lines_of (disk w)) = int b"
  shows "limit_end_index (lines_of (disk (main p w))) = int b"
proof (cases "last (lines_of (disk w) ! b) = LF")
  case True
  have "lines_of (disk (main p w)) = take (Suc b) (lines_of (disk w)) @ readlines new_types"
    using f True by (rule second_lines_terminated)
  then show ?thesis using limit_end_index_prefix[OF f] by simp
next
  case False
  define ls where "ls = lines_of (disk w)"
  define ls' where "ls' = lines_of (disk (main p w))"
  have bl: "b < length ls" using f unfolding ls_def by (rule limit_lt_length)
  have e: "ls' = take b ls @ ((ls ! b @ [LF]) # readlines (tl new_types))"
    unfolding ls'_def ls_def using f False by (rule second_lines_unterminated)
  have 1: "b < length ls'" using e bl by simp
  have 2: "ls' ! b = ls ! b @ [LF]" using e bl by (simp add: nth_append)
  have 3: "\<forall>k < b. ls' ! k = ls ! k" using e bl by (simp add: nth_append)
  have m: "\<forall>k \<le> b. str_in marker (ls' ! k) = str_in marker (ls ! k)"
  proof (intro allI impI)
    fix k assume "k \<le> b"
    then consider "k < b" | "k = b" by arith
    then show "str_in marker (ls' ! k) = str_in marker (ls ! k)"
    proof cases
      case 1
      then show ?thesis using 3 by simp
    next
      case 2
      have "str_in marker (ls ! b @ [LF]) = str_in marker (ls ! b)"
        using str_in_app_LF[of "ls ! b"] str_in_app[of marker "ls ! b" "[LF]"] by blast
      then show ?thesis using 2 \<open>ls' ! b = ls ! b @ [LF]\<close> by simp
    qed
  qed
  have s: "\<forall>k \<le> b. (strip (ls' ! k) = close_brace) = (strip (ls ! k) = close_brace)"
  proof (intro allI impI)
    fix k assume "k \<le> b"
    then consider "k < b" | "k = b" by arith
    then show "(strip (ls' ! k) = close_brace) = (strip (ls ! k) = close_brace)"
    proof cases
      case 1
      then show ?thesis using 3 by simp
    next
      case 2
      then show ?thesis using \<open>ls' ! b = ls ! b @ [LF]\<close> by (simp add: strip_app_LF)
    qed
  qed
  have "limit_end_index ls = int b" using f unfolding ls_def .
  then have "limit_end_index ls' = int b" using 1 m s by (rule limit_end_index_agree)
  then show ?thesis unfolding ls'_def .
qed

lemma newline_out_append: "newline_out p (a @ b) = newline_out p a @ newline_out p b"
  by (induction a) simp_all

lemma second_run_disk_terminated:
  assumes f: "limit_end_index (lines_of (disk w)) = int b"
    and t: "last (lines_of (disk w) ! b) = LF"
  shows "disk (main p (main p w)) = disk (main p w)"
proof -
  have bl: "b < length (lines_of (disk w))" using f by (rule limit_lt_length)
  have f': "limit_end_index (lines_of (disk (main p w))) = int b"
    using f by (rule second_run_same_index)
  have "lines_of (disk (main p w)) = take (Suc b) (lines_of (disk w)) @ readlines new_types"
    using f t by (rule second_lines_terminated)
  then have "take (Suc b) (lines_of (disk (main p w))) = take (Suc b) (lines_of (disk w))"
    using bl by simp
  then have "disk (main p (main p w)) =
      newline_out p (concat (take (Suc b) (lines_of (disk w))) @ new_types)"
    by (simp add: main_found[OF f'])
  then show ?thesis by (simp add: main_found[OF f])
qed

lemma second_run_disk_unterminated:
  assumes f: "limit_end_index (lines_of (disk w)) = int b"
    and t: "last (lines_of (disk w) ! b) \<noteq> LF"
  shows "disk (main p (main p w)) =
      newline_out p (concat (take (Suc b) (lines_of (disk w)))) @ linesep p @
      newline_out p new_types"
    and "disk (main p (main p w)) \<noteq> disk (main p w)"
proof -
  define ls where "ls = lines_of (disk w)"
  have bl: "b < length ls" using f unfolding ls_def by (rule limit_lt_length)
  have f': "limit_end_index (lines_of (disk (main p w))) = int b"
    using f by (rule second_run_same_index)
  have "lines_of (disk (main p w)) = take b ls @ ((ls ! b @ [LF]) # readlines (tl new_types))"
    unfolding ls_def using f t by (rule second_lines_unterminated)
  then have "take (Suc b) (lines_of (disk (main p w))) = take b ls @ [ls ! b @ [LF]]"
    using bl by simp
  then have "concat (take (Suc b) (lines_of (disk (main p w)))) = concat (take (Suc b) ls) @ [LF]"
    using bl by (simp add: take_Suc_conv_app_nth)
  then have "disk (main p (main p w)) = newline_out p ((concat (take (Suc b) ls) @ [LF]) @ new_types)"
    by (simp add: main_found[OF f'])
  then show 1: "disk (main p (main p w)) =
      newline_out p (concat (take (Suc b) (lines_of (disk w)))) @ linesep p @
      newline_out p new_types"
    unfolding ls_def by (simp add: newline_out_append)
  have 2: "disk (main p w) = newline_out p (concat (take (Suc b) (lines_of (disk w)))) @
      newline_out p new_types"
    by (simp add: main_found[OF f] newline_out_append)
  have "length (linesep p) > 0" by (cases p) simp_all
  then have "length (disk (main p (main p w))) \<noteq> length (disk (main p w))"
    unfolding 1 2 by simp
  then show "disk (main p (main p w)) \<noteq> disk (main p w)" by auto
qed

lemma second_lines_agree:
  assumes f: "limit_end_index (lines_of (disk w)) = int b"
  shows "b < length (lines_of (disk (main p w)))"
    and "\<forall>k \<le> b. str_in marker (lines_of (disk (main p w)) ! k) =
      str_in marker (lines_of (disk w) ! k)"
    and "\<forall>k \<le> b. strip (lines_of (disk (main p w)) ! k) = strip (lines_of (disk w) ! k)"
    and "last (lines_of (disk (main p w)) ! b) = LF"
proof -
  define ls where "ls = lines_of (disk w)"
  define ls' where "ls' = lines_of (disk (main p w))"
  have bl: "b < length ls" using f unfolding ls_def by (rule limit_lt_length)
  have "b < length ls' \<and> (\<forall>k \<le> b. str_in marker (ls' ! k) = str_in marker (ls ! k)) \<and>
      (\<forall>k \<le> b. strip (ls' ! k) = strip (ls ! k)) \<and> last (ls' ! b) = LF"
  proof (cases "last (ls ! b) = LF")
    case True
    have "ls' = take (Suc b) ls @ readlines new_types"
      unfolding ls'_def ls_def using f True[unfolded ls_def] by (rule second_lines_terminated)
    then have "b < length ls'" and "\<forall>k \<le> b. ls' ! k = ls ! k"
      using bl by (simp_all add: nth_append)
    then show ?thesis using True by simp
  next
    case False
    have e: "ls' = take b ls @ ((ls ! b @ [LF]) # readlines (tl new_types))"
      unfolding ls'_def ls_def using f False[unfolded ls_def]
      by (rule second_lines_unterminated)
    have 1: "b < length ls'" using e bl by simp
    have 2: "ls' ! b = ls ! b @ [LF]" using e bl by (simp add: nth_append)
    have 3: "\<forall>k < b. ls' ! k = ls ! k" using e bl by (simp add: nth_append)
    have mb: "str_in marker (ls ! b @ [LF]) = str_in marker (ls ! b)"
      using str_in_app_LF[of "ls ! b"] str_in_app[of marker "ls ! b" "[LF]"] by blast
    have m: "\<forall>k \<le> b. str_in marker (ls' ! k) = str_in marker (ls ! k)"
    proof (intro allI impI)
      fix k assume "k \<le> b"
      then consider "k < b" | "k = b" by arith
      then show "str_in marker (ls' ! k) = str_in marker (ls ! k)"
      proof cases
        case 1
        then show ?thesis using 3 by simp
      next
        case 2
        then show ?thesis using mb \<open>ls' ! b = ls ! b @ [LF]\<close> by simp
      qed
    qed
    have s: "\<forall>k \<le> b. strip (ls' ! k) = strip (ls ! k)"
    proof (intro allI impI)
      fix k assume "k \<le> b"
      then consider "k < b" | "k = b" by arith
      then show "strip (ls' ! k) = strip (ls ! k)"
      proof cases
        case 1
        then show ?thesis using 3 by simp
      next
        case 2
        then show ?thesis using \<open>ls' ! b = ls ! b @ [LF]\<close> by (simp add: strip_app_LF)
      qed
    qed
    have "last (ls' ! b) = LF" using 2 by simp
    then show ?thesis using 1 m s by simp
  qed
  then show "b < length (lines_of (disk (main p w)))"
    and "\<forall>k \<le> b. str_in marker (lines_of (disk (main p w)) ! k) =
      str_in marker (lines_of (disk w) ! k)"
    and "\<forall>k \<le> b. strip (lines_of (disk (main p w)) ! k) = strip (lines_of (disk w) ! k)"
    and "last (lines_of (disk (main p w)) ! b) = LF"
    unfolding ls_def ls'_def by simp_all
qed

lemma third_run_disk:
  assumes f: "limit_end_index (lines_of (disk w)) = int b"
  shows "disk (main p (main p (main p w))) = disk (main p (main p w))"
proof -
  have f': "limit_end_index (lines_of (disk (main p w))) = int b"
    using f by (rule second_run_same_index)
  have t': "last (lines_of (disk (main p w)) ! b) = LF"
    using f by (rule second_lines_agree(4))
  show ?thesis using f' t' by (rule second_run_disk_terminated)
qed

subsection \<open>The search in the words of the specification\<close>

lemma is_anchor_start_nth:
  "is_anchor_start lines i \<longleftrightarrow>
     i < length lines \<and> str_in marker (lines ! i) \<and> (\<forall>k < i. \<not> str_in marker (lines ! k))"
proof (cases "i < length lines")
  case True
  then have "list_all (\<lambda>l. \<not> str_in marker l) (take i lines) \<longleftrightarrow>
      (\<forall>k < i. \<not> str_in marker (lines ! k))"
    by (simp add: list_all_length)
  then show ?thesis by (simp add: is_anchor_start_def)
next
  case False
  then show ?thesis by (simp add: is_anchor_start_def)
qed

lemma is_block_end_nth:
  "is_block_end lines i b \<longleftrightarrow>
     i \<le> b \<and> b < length lines \<and> strip (lines ! b) = close_brace \<and>
     (\<forall>j. i \<le> j \<and> j < b \<longrightarrow> strip (lines ! j) \<noteq> close_brace)"
proof (cases "i \<le> b \<and> b < length lines")
  case True
  have "list_all (\<lambda>l. strip l \<noteq> close_brace) (take (b - i) (drop i lines)) \<longleftrightarrow>
      (\<forall>n < b - i. strip (lines ! (i + n)) \<noteq> close_brace)"
    using True by (auto simp: list_all_length)
  also have "\<dots> \<longleftrightarrow> (\<forall>j. i \<le> j \<and> j < b \<longrightarrow> strip (lines ! j) \<noteq> close_brace)"
  proof
    assume a: "\<forall>n < b - i. strip (lines ! (i + n)) \<noteq> close_brace"
    show "\<forall>j. i \<le> j \<and> j < b \<longrightarrow> strip (lines ! j) \<noteq> close_brace"
    proof (intro allI impI)
      fix j assume j: "i \<le> j \<and> j < b"
      then have "j - i < b - i" by arith
      then have "strip (lines ! (i + (j - i))) \<noteq> close_brace" using a by blast
      then show "strip (lines ! j) \<noteq> close_brace" using j by simp
    qed
  next
    assume a: "\<forall>j. i \<le> j \<and> j < b \<longrightarrow> strip (lines ! j) \<noteq> close_brace"
    show "\<forall>n < b - i. strip (lines ! (i + n)) \<noteq> close_brace"
    proof (intro allI impI)
      fix n assume "n < b - i"
      then have "i \<le> i + n \<and> i + n < b" by arith
      then show "strip (lines ! (i + n)) \<noteq> close_brace" using a by blast
    qed
  qed
  finally show ?thesis using True by (simp add: is_block_end_def)
next
  case False
  then show ?thesis by (auto simp: is_block_end_def)
qed

lemma limit_end_index_spec:
  "limit_end_index lines = int b \<longleftrightarrow> (\<exists>i. is_anchor_start lines i \<and> is_block_end lines i b)"
proof
  assume "limit_end_index lines = int b"
  then obtain i where "i \<le> b" "b < length lines" "str_in marker (lines ! i)"
      "\<forall>k < i. \<not> str_in marker (lines ! k)" "strip (lines ! b) = close_brace"
      "\<forall>j. i \<le> j \<and> j < b \<longrightarrow> strip (lines ! j) \<noteq> close_brace"
    unfolding limit_end_index_eq by auto
  then have "is_anchor_start lines i \<and> is_block_end lines i b"
    unfolding is_anchor_start_nth is_block_end_nth by simp
  then show "\<exists>i. is_anchor_start lines i \<and> is_block_end lines i b" ..
next
  assume "\<exists>i. is_anchor_start lines i \<and> is_block_end lines i b"
  then obtain i where "is_anchor_start lines i" "is_block_end lines i b" by auto
  then have "i \<le> b \<and> b < length lines \<and> str_in marker (lines ! i) \<and>
      (\<forall>k < i. \<not> str_in marker (lines ! k)) \<and> strip (lines ! b) = close_brace \<and>
      (\<forall>j. i \<le> j \<and> j < b \<longrightarrow> strip (lines ! j) \<noteq> close_brace)"
    unfolding is_anchor_start_nth is_block_end_nth by simp
  then show "limit_end_index lines = int b" unfolding limit_end_index_eq by (intro exI[of _ i]) simp
qed

lemma limit_end_index_none_spec:
  "limit_end_index lines = - 1 \<longleftrightarrow>
     \<not> (\<exists>i b. is_anchor_start lines i \<and> is_block_end lines i b)"
proof
  assume n: "limit_end_index lines = - 1"
  show "\<not> (\<exists>i b. is_anchor_start lines i \<and> is_block_end lines i b)"
  proof
    assume "\<exists>i b. is_anchor_start lines i \<and> is_block_end lines i b"
    then obtain b where "\<exists>i. is_anchor_start lines i \<and> is_block_end lines i b" by auto
    then have "limit_end_index lines = int b" unfolding limit_end_index_spec .
    then show False using n by simp
  qed
next
  assume a: "\<not> (\<exists>i b. is_anchor_start lines i \<and> is_block_end lines i b)"
  show "limit_end_index lines = - 1"
  proof (rule ccontr)
    assume "limit_end_index lines \<noteq> - 1"
    then obtain b where "limit_end_index lines = int b"
      using limit_end_index_range[of lines] by auto
    then have "\<exists>i. is_anchor_start lines i \<and> is_block_end lines i b"
      unfolding limit_end_index_spec .
    then show False using a by auto
  qed
qed

lemma anchor_unique:
  "is_anchor_start lines i \<Longrightarrow> is_anchor_start lines i' \<Longrightarrow> i = i'"
  unfolding is_anchor_start_nth by (metis nat_neq_iff)

subsection \<open>The example documents\<close>

lemma lines_of_doc_scenario:
  "lines_of doc_scenario =
     [py ''export interface TransactionLimit {\<newline>'', py ''  amount: number;\<newline>'',
      py ''}\<newline>'', py ''export interface Other { x: number; }\<newline>'']"
  by code_simp

lemma lines_of_doc_replaced:
  "lines_of doc_replaced =
     [py ''export interface TransactionLimit {\<newline>'', py ''  amount: number;\<newline>'',
      py ''}\<newline>'', py ''type Id = string;\<newline>'', py ''}\<newline>'']"
  by code_simp

lemma lines_of_doc_other:
  "lines_of doc_other = [py ''export interface Other { x: number; }\<newline>'', py ''}\<newline>'']"
  by code_simp

lemma lines_of_doc_semicolon:
  "lines_of doc_semicolon =
     [py ''}\<newline>'', py ''export interface TransactionLimit {\<newline>'',
      py ''  amount: number;\<newline>'', py ''};\<newline>'']"
  by code_simp

lemma lines_of_doc_brace_twice:
  "lines_of doc_brace_twice =
     [py ''}\<newline>'', py ''export interface TransactionLimit {\<newline>'',
      py ''export interface TransactionLimit2 {\<newline>'', py ''}\<newline>'',
      py ''}\<newline>'']"
  by code_simp

lemma lines_of_doc_lf:
  "lines_of doc_lf = [py ''export interface TransactionLimit {\<newline>'', py ''}\<newline>'']"
  by code_simp

lemma lines_of_doc_crlf:
  "lines_of doc_crlf = [py ''export interface TransactionLimit {\<newline>'', py ''}\<newline>'']"
  by code_simp

lemma lines_of_doc_unterminated:
  "lines_of doc_unterminated = [py ''export interface TransactionLimit {\<newline>'', py ''}'']"
  by code_simp

lemmas eval_defs = limit_end_index_def enumerate_eq_zip upt_rec marker_def close_brace_def
  strip_def isspace_def py_def

lemma limit_doc_scenario: "limit_end_index (lines_of doc_scenario) = int 2"
  by (simp add: lines_of_doc_scenario eval_defs)

lemma limit_doc_replaced: "limit_end_index (lines_of doc_replaced) = int 2"
  by (simp add: lines_of_doc_replaced eval_defs)


lemma limit_doc_semicolon: "limit_end_index (lines_of doc_semicolon) = - 1"
  by (simp add: lines_of_doc_semicolon eval_defs)

lemma limit_doc_lf: "limit_end_index (lines_of doc_lf) = int 1"
  by (simp add: lines_of_doc_lf eval_defs)

lemma limit_doc_crlf: "limit_end_index (lines_of doc_crlf) = int 1"
  by (simp add: lines_of_doc_crlf eval_defs)

lemma limit_doc_unterminated: "limit_end_index (lines_of doc_unterminated) = int 1"
  by (simp add: lines_of_doc_unterminated eval_defs)

lemma disk_start: "disk (start doc) = doc"
  by (simp add: start_def)

subsection \<open>The claims\<close>

text \<open>
  Claim C2.  When no line contains the marker, the run opens the file for writing zero
  times, leaves its content as it was, and prints the not-found message.
\<close>

theorem marker_absent_no_write:
  assumes "\<forall>l \<in> set (lines_of (disk w)). \<not> str_in marker l"
  shows "writes (main p w) = writes w \<and> disk (main p w) = disk w \<and>
    stdout (main p w) = stdout w @ [''TransactionLimit not found.'']"
proof -
  have "limit_end_index (lines_of (disk w)) = - 1"
    unfolding limit_end_index_def using assms by (rule outer_loop_none)
  then show ?thesis by (simp add: main_not_found)
qed

text \<open>
  A document with a lone closing brace and no marker.
\<close>

theorem marker_absent_no_write_witness:
  "filter (str_in marker) (lines_of (disk (start doc_other))) = [] \<and>
   writes (main Windows (start doc_other)) = 0 \<and>
   disk (main Windows (start doc_other)) = doc_other \<and>
   stdout (main Windows (start doc_other)) = [''TransactionLimit not found.'']"
proof -
  have h: "\<forall>l \<in> set (lines_of (disk (start doc_other))). \<not> str_in marker l"
    by (simp add: disk_start lines_of_doc_other marker_def py_def)
  have "filter (str_in marker) (lines_of (disk (start doc_other))) = []"
    using h by (simp add: filter_empty_conv)
  then show ?thesis using marker_absent_no_write[OF h, of Windows] by (simp add: start_def)
qed

text \<open>
  Claim C3.  When line \<open>i\<close> is the first line that contains the marker and no line from
  \<open>i\<close> on is, once stripped, exactly the closing brace, the run opens the file for writing
  zero times and leaves its content as it was.
\<close>

theorem block_end_absent_no_write:
  assumes "is_anchor_start (lines_of (disk w)) i"
    and "list_all (\<lambda>l. strip l \<noteq> close_brace) (drop i (lines_of (disk w)))"
  shows "writes (main p w) = writes w \<and> disk (main p w) = disk w \<and>
    stdout (main p w) = stdout w @ [''TransactionLimit not found.'']"
proof -
  define ls where "ls = lines_of (disk w)"
  have "limit_end_index ls = - 1"
  proof (rule ccontr)
    assume "limit_end_index ls \<noteq> - 1"
    then obtain b where "limit_end_index ls = int b"
      using limit_end_index_range[of ls] by auto
    then obtain i' where i': "is_anchor_start ls i'" "is_block_end ls i' b"
      unfolding limit_end_index_spec by auto
    have "i' = i" using i'(1) assms(1) unfolding ls_def by (rule anchor_unique)
    then have b: "i \<le> b" "b < length ls" "strip (ls ! b) = close_brace"
      using i'(2) unfolding is_block_end_nth by auto
    have "ls ! b = drop i ls ! (b - i)" using b(1,2) by simp
    moreover have "b - i < length (drop i ls)" using b(1,2) by simp
    ultimately have "strip (ls ! b) \<noteq> close_brace"
      using assms(2) unfolding ls_def list_all_length by metis
    then show False using b(3) by simp
  qed
  then show ?thesis unfolding ls_def by (simp add: main_not_found)
qed

text \<open>
  The marker is on line \<open>1\<close>; the only lone closing brace is on line \<open>0\<close>, before it, and the
  declaration is closed by a brace followed by a semicolon.
\<close>

theorem block_end_absent_no_write_witness:
  "is_anchor_start (lines_of (disk (start doc_semicolon))) 1 \<and>
   list_all (\<lambda>l. strip l \<noteq> close_brace) (drop 1 (lines_of (disk (start doc_semicolon)))) \<and>
   writes (main Posix (start doc_semicolon)) = 0 \<and>
   disk (main Posix (start doc_semicolon)) = doc_semicolon \<and>
   stdout (main Posix (start doc_semicolon)) = [''TransactionLimit not found.'']"
proof -
  have h1: "is_anchor_start (lines_of (disk (start doc_semicolon))) 1"
    by (simp add: disk_start lines_of_doc_semicolon is_anchor_start_def marker_def py_def)
  have h2: "list_all (\<lambda>l. strip l \<noteq> close_brace) (drop 1 (lines_of (disk (start doc_semicolon))))"
    by (simp add: disk_start lines_of_doc_semicolon strip_def isspace_def py_def close_brace_def)
  show ?thesis using h1 h2 block_end_absent_no_write[OF h1 h2, of Posix]
    by (simp add: start_def)
qed

text \<open>
  Claim C4.  The index the two loops leave in \<open>limit_end_index\<close> is \<open>b\<close> exactly when
  \<open>b\<close> is the Block End Boundary of the specification: the first line, from the first line
  that contains the marker on, whose stripped content is exactly the closing brace.  It is
  \<open>- 1\<close> exactly when there is no such line, and it is never anything else.
\<close>

theorem locator_first_match:
  "(limit_end_index lines = int b \<longleftrightarrow>
      (\<exists>i. is_anchor_start lines i \<and> is_block_end lines i b)) \<and>
   (limit_end_index lines = - 1 \<longleftrightarrow>
      \<not> (\<exists>i b. is_anchor_start lines i \<and> is_block_end lines i b)) \<and>
   (limit_end_index lines = - 1 \<or> (\<exists>b < length lines. limit_end_index lines = int b))"
  using limit_end_index_spec limit_end_index_none_spec limit_end_index_range by blast

text \<open>
  A document with two lone closing braces after the marker: the first of them is selected.
\<close>

theorem locator_first_match_witness:
  "is_anchor_start (lines_of doc_replaced) 0 \<and> is_block_end (lines_of doc_replaced) 0 2 \<and>
   limit_end_index (lines_of doc_replaced) = 2"
proof -
  have h1: "is_anchor_start (lines_of doc_replaced) 0"
    by (simp add: lines_of_doc_replaced is_anchor_start_def marker_def py_def)
  have h2: "is_block_end (lines_of doc_replaced) 0 2"
    by (simp add: lines_of_doc_replaced is_block_end_def strip_def isspace_def py_def
        close_brace_def)
  have "limit_end_index (lines_of doc_replaced) = int 2"
    using locator_first_match[of "lines_of doc_replaced" 2] h1 h2 by blast
  then show ?thesis using h1 h2 by simp
qed

text \<open>
  Claim C5.  A line that holds a closing brace together with other characters that are not
  white space is never the index the search returns, and the inner loop goes on past it; the
  line that is returned has exactly the closing brace as its stripped content.
\<close>

theorem brace_with_others_skipped:
  "(brace_with_others (lines ! j) \<longrightarrow>
      limit_end_index lines \<noteq> int j \<and> inner_loop lines (j # js) = inner_loop lines js) \<and>
   (limit_end_index lines = int b \<longrightarrow>
      strip (lines ! b) = close_brace \<and> \<not> brace_with_others (lines ! b))"
proof (intro conjI impI)
  assume "brace_with_others (lines ! j)"
  then have n: "strip (lines ! j) \<noteq> close_brace"
    using strip_close_filter[of "lines ! j"] by (auto simp: brace_with_others_def)
  show "limit_end_index lines \<noteq> int j" using n unfolding limit_end_index_eq by simp
  show "inner_loop lines (j # js) = inner_loop lines js" using n by simp
next
  assume "limit_end_index lines = int b"
  then show s: "strip (lines ! b) = close_brace" unfolding limit_end_index_eq by auto
  then show "\<not> brace_with_others (lines ! b)"
    using strip_close_filter[of "lines ! b"] by (simp add: brace_with_others_def)
qed

text \<open>
  Line \<open>3\<close> of \<open>doc_semicolon\<close> is a brace followed by a semicolon.
\<close>

theorem brace_with_others_skipped_witness:
  "brace_with_others (lines_of doc_semicolon ! 3) \<and>
   limit_end_index (lines_of doc_semicolon) \<noteq> 3 \<and>
   inner_loop (lines_of doc_semicolon) [3, 4] = inner_loop (lines_of doc_semicolon) [4] \<and>
   limit_end_index (lines_of doc_replaced) = 2 \<and>
   strip (lines_of doc_replaced ! 2) = close_brace"
proof -
  have h1: "brace_with_others (lines_of doc_semicolon ! 3)"
    by (simp add: lines_of_doc_semicolon brace_with_others_def isspace_def py_def
        close_brace_def)
  have h2: "limit_end_index (lines_of doc_replaced) = int 2" by (rule limit_doc_replaced)
  have "limit_end_index (lines_of doc_semicolon) \<noteq> int 3 \<and>
      inner_loop (lines_of doc_semicolon) (3 # [4]) = inner_loop (lines_of doc_semicolon) [4]"
    using brace_with_others_skipped[of "lines_of doc_semicolon" 3 "[4]"] h1 by blast
  moreover have "strip (lines_of doc_replaced ! 2) = close_brace"
    using brace_with_others_skipped[of "lines_of doc_replaced" _ _ 2] h2 by blast
  ultimately show ?thesis using h1 h2 by simp
qed


text \<open>
  Claim C10.  When the boundary of a document is \<open>b\<close>, a document whose lines are the same
  through line \<open>b\<close>, and anything after, has the same boundary and the run leaves the same
  content in the file.
\<close>

theorem prefix_determines_output:
  assumes "limit_end_index (lines_of (disk w)) = int b"
    and "lines_of (disk w') = take (Suc b) (lines_of (disk w)) @ others"
  shows "limit_end_index (lines_of (disk w')) = int b \<and> disk (main p w') = disk (main p w)"
proof -
  have bl: "b < length (lines_of (disk w))" using assms(1) by (rule limit_lt_length)
  have f': "limit_end_index (lines_of (disk w')) = int b"
    unfolding assms(2) using assms(1) by (rule limit_end_index_prefix)
  have "take (Suc b) (lines_of (disk w')) = take (Suc b) (lines_of (disk w))"
    unfolding assms(2) using bl by simp
  then show ?thesis using f' by (simp add: main_found[OF assms(1)] main_found[OF f'])
qed

text \<open>
  The scenario of the specification and a document that differs after the boundary.
\<close>

theorem prefix_determines_output_witness:
  "limit_end_index (lines_of (disk (start doc_scenario))) = 2 \<and>
   lines_of (disk (start doc_replaced)) =
     take 3 (lines_of (disk (start doc_scenario))) @ [py ''type Id = string;\<newline>'', py ''}\<newline>''] \<and>
   limit_end_index (lines_of (disk (start doc_replaced))) = 2 \<and>
   disk (main Windows (start doc_replaced)) = disk (main Windows (start doc_scenario))"
proof -
  have h1: "limit_end_index (lines_of (disk (start doc_scenario))) = int 2"
    unfolding disk_start by (rule limit_doc_scenario)
  have h2: "lines_of (disk (start doc_replaced)) =
     take (Suc 2) (lines_of (disk (start doc_scenario))) @ [py ''type Id = string;\<newline>'', py ''}\<newline>'']"
    by (simp add: disk_start lines_of_doc_replaced lines_of_doc_scenario)
  show ?thesis using h1 h2 prefix_determines_output[OF h1 h2, of Windows] by simp
qed

lemma concat_take_prefix:
  "concat (take k ls) = take (length (concat (take k ls))) (concat ls)"
proof -
  have "concat ls = concat (take k ls) @ concat (drop k ls)"
    by (metis append_take_drop_id concat_append)
  then show ?thesis by simp
qed

text \<open>
  Claim C1, as amended.  When some line contains the marker and a line at or after it is,
  once stripped, exactly the closing brace, the run finds a boundary \<open>b\<close> no later than that
  line, and \<open>b\<close> is the Block End Boundary of the specification: the first line, from the
  first line that contains the marker on, whose stripped content is exactly the closing brace.
  The run writes the file once and prints the success message.  What it hands to the file
  object is the lines \<open>0\<close> to \<open>b\<close> as they are in memory (their terminators already turned
  into LF by the reading) followed by \<open>new_types\<close>, with nothing between or after; the text
  layer then writes each LF as the line separator of the platform.  Read back through the
  text layer the file is exactly those lines followed by \<open>new_types\<close>.  Where the separator
  is LF and the file held no CR, the file is its own first characters, through the boundary
  line, followed by \<open>new_types\<close>.
\<close>

theorem splice_content:
  assumes "i \<le> j" "j < length (lines_of (disk w))"
    and "str_in marker (lines_of (disk w) ! i)"
    and "strip (lines_of (disk w) ! j) = close_brace"
  shows "\<exists>b \<le> j. limit_end_index (lines_of (disk w)) = int b \<and>
    (\<exists>a \<le> i. is_anchor_start (lines_of (disk w)) a \<and> is_block_end (lines_of (disk w)) a b) \<and>
    writes (main p w) = writes w + 1 \<and>
    stdout (main p w) = stdout w @ [''File fixed successfully.''] \<and>
    disk (main p w) = newline_out p (concat (take (Suc b) (lines_of (disk w))) @ new_types) \<and>
    universal_newlines (disk (main p w)) = concat (take (Suc b) (lines_of (disk w))) @ new_types \<and>
    (p = Posix \<and> CR \<notin> set (disk w) \<longrightarrow>
       disk (main p w) =
         take (length (concat (take (Suc b) (lines_of (disk w))))) (disk w) @ new_types)"
proof -
  obtain b where b: "b \<le> j" "limit_end_index (lines_of (disk w)) = int b"
    using limit_end_index_found[OF assms] by blast
  obtain a where a: "is_anchor_start (lines_of (disk w)) a" "is_block_end (lines_of (disk w)) a b"
    using b(2) unfolding limit_end_index_spec by blast
  have "\<not> i < a"
  proof
    assume "i < a"
    then have "\<not> str_in marker (lines_of (disk w) ! i)"
      using a(1) unfolding is_anchor_start_nth by blast
    then show False using assms(3) by simp
  qed
  then have ai: "a \<le> i" by simp
  have an: "\<exists>a \<le> i. is_anchor_start (lines_of (disk w)) a \<and> is_block_end (lines_of (disk w)) a b"
    using a ai by blast
  have 1: "writes (main p w) = writes w + 1" by (simp add: main_found[OF b(2)])
  have 5: "stdout (main p w) = stdout w @ [''File fixed successfully.'']"
    by (simp add: main_found[OF b(2)])
  have 2: "disk (main p w) = newline_out p (concat (take (Suc b) (lines_of (disk w))) @ new_types)"
    by (simp add: main_found[OF b(2)])
  have 3: "universal_newlines (disk (main p w)) =
      concat (take (Suc b) (lines_of (disk w))) @ new_types"
    using b(2) by (rule reread)
  have 4: "disk (main p w) =
      take (length (concat (take (Suc b) (lines_of (disk w))))) (disk w) @ new_types"
    if "p = Posix \<and> CR \<notin> set (disk w)"
  proof -
    have "concat (lines_of (disk w)) = disk w"
      using that by (simp add: lines_of_def concat_readlines universal_newlines_id)
    then have "take (length (concat (take (Suc b) (lines_of (disk w))))) (disk w) =
        concat (take (Suc b) (lines_of (disk w)))"
      using concat_take_prefix[of "Suc b" "lines_of (disk w)"] by simp
    then show ?thesis using 2 that by (simp add: newline_out_Posix)
  qed
  show ?thesis
  proof (rule exI[of _ b], intro conjI)
    show "b \<le> j" by (rule b(1))
    show "limit_end_index (lines_of (disk w)) = int b" by (rule b(2))
    show "\<exists>a \<le> i. is_anchor_start (lines_of (disk w)) a \<and> is_block_end (lines_of (disk w)) a b"
      by (rule an)
    show "writes (main p w) = writes w + 1" by (rule 1)
    show "stdout (main p w) = stdout w @ [''File fixed successfully.'']" by (rule 5)
    show "disk (main p w) =
        newline_out p (concat (take (Suc b) (lines_of (disk w))) @ new_types)" by (rule 2)
    show "universal_newlines (disk (main p w)) =
        concat (take (Suc b) (lines_of (disk w))) @ new_types" by (rule 3)
    show "p = Posix \<and> CR \<notin> set (disk w) \<longrightarrow>
       disk (main p w) =
         take (length (concat (take (Suc b) (lines_of (disk w))))) (disk w) @ new_types"
      using 4 by blast
  qed
qed

text \<open>
  A document with a lone closing brace before the marker, two lines that contain the
  marker and two lone closing braces after them, on a platform whose separator is LF.  The
  hypotheses are met by the second marker line and the second brace; the boundary is line
  \<open>3\<close>, the first brace after the first marker line, and the file becomes its first four
  lines followed by \<open>new_types\<close>.
\<close>

theorem splice_content_witness:
  "(2::nat) \<le> 4 \<and> 4 < length (lines_of (disk (start doc_brace_twice))) \<and>
   str_in marker (lines_of (disk (start doc_brace_twice)) ! 2) \<and>
   strip (lines_of (disk (start doc_brace_twice)) ! 4) = close_brace \<and>
   limit_end_index (lines_of (disk (start doc_brace_twice))) = 3 \<and>
   is_anchor_start (lines_of (disk (start doc_brace_twice))) 1 \<and>
   is_block_end (lines_of (disk (start doc_brace_twice))) 1 3 \<and>
   writes (main Posix (start doc_brace_twice)) = 1 \<and>
   disk (main Posix (start doc_brace_twice)) =
     py ''}\<newline>'' @ py ''export interface TransactionLimit {\<newline>'' @
     py ''export interface TransactionLimit2 {\<newline>'' @ py ''}\<newline>'' @ new_types"
proof -
  let ?ls = "lines_of (disk (start doc_brace_twice))"
  have h1: "(2::nat) \<le> 4" by simp
  have h2: "4 < length ?ls"
    by (simp add: disk_start lines_of_doc_brace_twice)
  have h3: "str_in marker (?ls ! 2)"
    by (simp add: disk_start lines_of_doc_brace_twice marker_def py_def)
  have h4: "strip (?ls ! 4) = close_brace"
    by (simp add: disk_start lines_of_doc_brace_twice strip_def isspace_def close_brace_def py_def)
  obtain b a where b: "b \<le> 4" "limit_end_index ?ls = int b"
      "a \<le> 2" "is_anchor_start ?ls a" "is_block_end ?ls a b"
      "writes (main Posix (start doc_brace_twice)) = writes (start doc_brace_twice) + 1"
      "disk (main Posix (start doc_brace_twice)) =
        newline_out Posix (concat (take (Suc b) ?ls) @ new_types)"
    using splice_content[OF h1 h2 h3 h4, of Posix] by blast
  have a1: "is_anchor_start ?ls 1"
    by (simp add: disk_start lines_of_doc_brace_twice is_anchor_start_def marker_def py_def)
  have "a = 1" using a1 b(4) by (rule anchor_unique[symmetric])
  then have e: "is_block_end ?ls 1 b" using b(5) by simp
  have "b \<noteq> 0 \<and> b \<noteq> 1 \<and> b \<noteq> 2 \<and> b \<noteq> 4"
    using e
    by (auto simp: is_block_end_def disk_start lines_of_doc_brace_twice strip_def isspace_def
        close_brace_def py_def)
  then have b3: "b = 3" using b(1) by arith
  then have "disk (main Posix (start doc_brace_twice)) =
      py ''}\<newline>'' @ py ''export interface TransactionLimit {\<newline>'' @
      py ''export interface TransactionLimit2 {\<newline>'' @ py ''}\<newline>'' @ new_types"
    using b(7) by (simp add: newline_out_Posix disk_start lines_of_doc_brace_twice eval_nat_numeral)
  then show ?thesis using h1 h2 h3 h4 a1 e b(2,6) b3 by (simp add: start_def)
qed

text \<open>
  Claim C1 as stated, with the bytes of the file preserved, fails.  In \<open>doc_lf\<close> and in
  \<open>doc_crlf\<close> the boundary is the last line, so the claim asks for the document itself followed
  by \<open>new_types\<close>.  Where the separator is CR LF a file with LF terminators comes back with
  CR LF; where the separator is LF a file with CR LF terminators comes back with LF.
\<close>

theorem splice_content_counterexample:
  "str_in marker (lines_of doc_lf ! 0) \<and> strip (lines_of doc_lf ! 1) = close_brace \<and>
   limit_end_index (lines_of doc_lf) = 1 \<and> concat (take 2 (lines_of doc_lf)) = doc_lf \<and>
   disk (main Windows (start doc_lf)) \<noteq> doc_lf @ new_types \<and>
   str_in marker (lines_of doc_crlf ! 0) \<and> strip (lines_of doc_crlf ! 1) = close_brace \<and>
   limit_end_index (lines_of doc_crlf) = 1 \<and>
   disk (main Posix (start doc_crlf)) \<noteq> doc_crlf @ new_types"
proof -
  have a1: "str_in marker (lines_of doc_lf ! 0)"
    by (simp add: lines_of_doc_lf marker_def py_def)
  have a2: "strip (lines_of doc_lf ! 1) = close_brace"
    by (simp add: lines_of_doc_lf strip_def isspace_def close_brace_def py_def)
  have a3: "concat (take 2 (lines_of doc_lf)) = doc_lf"
    unfolding lines_of_doc_lf by (simp add: doc_lf_def)
  have f1: "limit_end_index (lines_of (disk (start doc_lf))) = int 1"
    unfolding disk_start by (rule limit_doc_lf)
  have "disk (main Windows (start doc_lf)) ! 35 = CR"
    by (simp add: main_found[OF f1] disk_start lines_of_doc_lf py_def LF_def)
  moreover have "(doc_lf @ new_types) ! 35 = LF"
    by (simp add: doc_lf_def py_def LF_def)
  ultimately have a4: "disk (main Windows (start doc_lf)) \<noteq> doc_lf @ new_types"
    using LF_neq_CR by metis
  have b1: "str_in marker (lines_of doc_crlf ! 0)"
    by (simp add: lines_of_doc_crlf marker_def py_def)
  have b2: "strip (lines_of doc_crlf ! 1) = close_brace"
    by (simp add: lines_of_doc_crlf strip_def isspace_def close_brace_def py_def)
  have f2: "limit_end_index (lines_of (disk (start doc_crlf))) = int 1"
    unfolding disk_start by (rule limit_doc_crlf)
  have "disk (main Posix (start doc_crlf)) ! 35 = LF"
    by (simp add: main_found[OF f2] newline_out_Posix disk_start lines_of_doc_crlf py_def LF_def)
  moreover have "(doc_crlf @ new_types) ! 35 = CR"
    by (simp add: doc_crlf_def py_def)
  ultimately have b4: "disk (main Posix (start doc_crlf)) \<noteq> doc_crlf @ new_types"
    using LF_neq_CR by metis
  show ?thesis using a1 a2 a3 a4 b1 b2 b4 limit_doc_lf limit_doc_crlf by simp
qed

lemma second_run_report:
  assumes "limit_end_index (lines_of (disk w)) \<noteq> - 1"
  shows "limit_end_index (lines_of (disk (main p w))) = limit_end_index (lines_of (disk w)) \<and>
    stdout (main p (main p w)) =
      stdout w @ [''File fixed successfully.'', ''File fixed successfully.''] \<and>
    writes (main p (main p w)) = writes w + 2"
proof -
  obtain b where f: "limit_end_index (lines_of (disk w)) = int b"
    using assms limit_end_index_range[of "lines_of (disk w)"] by auto
  have f': "limit_end_index (lines_of (disk (main p w))) = int b"
    using f by (rule second_run_same_index)
  have "stdout (main p (main p w)) = stdout (main p w) @ [''File fixed successfully.'']"
    by (simp add: main_found[OF f'])
  moreover have "writes (main p (main p w)) = writes (main p w) + 1"
    by (simp add: main_found[OF f'])
  ultimately show ?thesis using f f' by (simp add: main_found[OF f])
qed

lemma new_types_no_T: "of_char CHR ''T'' \<notin> set new_types"
  by (simp add: new_types_def py_def)

lemma marker_has_T: "of_char CHR ''T'' \<in> set marker"
  by (simp add: marker_def py_def)

lemma str_in_set: "str_in m l \<Longrightarrow> set m \<subseteq> set l"
  unfolding str_in_iff by auto

lemma new_types_no_marker: "filter (str_in marker) (readlines new_types) = []"
proof -
  have "\<not> str_in marker l" if "l \<in> set (readlines new_types)" for l
  proof
    assume "str_in marker l"
    then have "of_char CHR ''T'' \<in> set l" using marker_has_T str_in_set by blast
    then have "of_char CHR ''T'' \<in> set (concat (readlines new_types))" using that by auto
    then show False using new_types_no_T by (simp add: concat_readlines)
  qed
  then show ?thesis by (simp add: filter_empty_conv)
qed

text \<open>
  Claim C6, as amended.  The marker line and the boundary line are inside the prefix that
  the first run keeps, so a second run, on the file a successful first run left, finds the
  same boundary, prints the success message again and writes the file again.
\<close>

theorem second_run_succeeds:
  assumes "limit_end_index (lines_of (disk w)) \<noteq> - 1"
  shows "limit_end_index (lines_of (disk (main p w))) = limit_end_index (lines_of (disk w)) \<and>
    stdout (main p (main p w)) =
      stdout w @ [''File fixed successfully.'', ''File fixed successfully.''] \<and>
    writes (main p (main p w)) = writes w + 2"
  using assms by (rule second_run_report)

text \<open>
  The scenario of the specification, run twice.
\<close>

theorem second_run_succeeds_witness:
  "limit_end_index (lines_of (disk (start doc_scenario))) \<noteq> - 1 \<and>
   limit_end_index (lines_of (disk (main Windows (start doc_scenario)))) = 2 \<and>
   stdout (main Windows (main Windows (start doc_scenario))) =
     [''File fixed successfully.'', ''File fixed successfully.''] \<and>
   writes (main Windows (main Windows (start doc_scenario))) = 2"
proof -
  have f: "limit_end_index (lines_of (disk (start doc_scenario))) = 2"
    using limit_doc_scenario by (simp add: disk_start)
  then have h: "limit_end_index (lines_of (disk (start doc_scenario))) \<noteq> - 1" by simp
  show ?thesis using h f second_run_succeeds[OF h, of Windows] by (simp add: start_def)
qed

text \<open>
  Claim C6 as stated fails.  No line of \<open>new_types\<close> contains the marker, and yet the
  second run on the scenario of the specification prints the success message and writes.
\<close>

theorem second_run_not_found_counterexample:
  "filter (str_in marker) (readlines new_types) = [] \<and>
   stdout (main Posix (start doc_scenario)) = [''File fixed successfully.''] \<and>
   stdout (main Posix (main Posix (start doc_scenario))) =
     [''File fixed successfully.'', ''File fixed successfully.''] \<and>
   writes (main Posix (main Posix (start doc_scenario))) = 2"
proof -
  have f: "limit_end_index (lines_of (disk (start doc_scenario))) = int 2"
    unfolding disk_start by (rule limit_doc_scenario)
  then have h: "limit_end_index (lines_of (disk (start doc_scenario))) \<noteq> - 1" by simp
  have "stdout (main Posix (start doc_scenario)) = [''File fixed successfully.'']"
    using main_found[OF f, of Posix] by (simp add: start_def)
  then show ?thesis
    using new_types_no_marker second_run_report[OF h, of Posix] by (simp add: start_def)
qed

text \<open>
  Claim C7, as amended.  The elements of \<open>lines\<close> are the lines of the file in their order
  and they keep their terminator, as LF: put one after the other they are the text that was
  read, none is empty, none holds a CR, an LF can only be the last character of an element,
  and every element but the last ends with LF.
\<close>

theorem lines_shape:
  "concat (lines_of doc) = universal_newlines doc \<and>
   (\<forall>l \<in> set (lines_of doc). l \<noteq> [] \<and> LF \<notin> set (butlast l) \<and> CR \<notin> set l) \<and>
   (\<forall>l \<in> set (butlast (lines_of doc)). last l = LF)"
proof (intro conjI ballI)
  show "concat (lines_of doc) = universal_newlines doc"
    by (simp add: lines_of_def concat_readlines)
next
  fix l assume "l \<in> set (lines_of doc)"
  then show "l \<noteq> []" "LF \<notin> set (butlast l)" "CR \<notin> set l"
    using readlines_elems[of l "universal_newlines doc"] lines_of_no_CR[of l doc]
    by (simp_all add: lines_of_def)
next
  fix l assume "l \<in> set (butlast (lines_of doc))"
  then show "last l = LF" unfolding lines_of_def by (rule readlines_butlast)
qed

text \<open>
  A file with CR LF terminators.
\<close>

theorem lines_shape_witness:
  "lines_of doc_crlf = [py ''export interface TransactionLimit {\<newline>'', py ''}\<newline>''] \<and>
   concat (lines_of doc_crlf) = universal_newlines doc_crlf \<and>
   last (lines_of doc_crlf ! 0) = LF \<and> CR \<notin> set (lines_of doc_crlf ! 1)"
proof -
  have m0: "lines_of doc_crlf ! 0 \<in> set (butlast (lines_of doc_crlf))"
    by (simp add: lines_of_doc_crlf)
  have m1: "lines_of doc_crlf ! 1 \<in> set (lines_of doc_crlf)"
    by (simp add: lines_of_doc_crlf)
  show ?thesis using lines_shape[of doc_crlf] m0 m1 lines_of_doc_crlf by blast
qed

text \<open>
  Claim C7 as stated fails: both elements read from \<open>doc_lf\<close> end with the terminator.
\<close>

theorem lines_keep_terminator_counterexample:
  "lines_of doc_lf = [py ''export interface TransactionLimit {\<newline>'', py ''}\<newline>''] \<and>
   last (lines_of doc_lf ! 0) = LF \<and> last (lines_of doc_lf ! 1) = LF"
  by (simp add: lines_of_doc_lf py_def LF_def)

lemma second_run_same_lines:
  assumes f: "limit_end_index (lines_of (disk w)) = int b"
    and a: "is_anchor_start (lines_of (disk w)) i" "is_block_end (lines_of (disk w)) i b"
  shows "is_anchor_start (lines_of (disk (main p w))) i \<and>
    is_block_end (lines_of (disk (main p w))) i b"
proof -
  define ls where "ls = lines_of (disk w)"
  define ls' where "ls' = lines_of (disk (main p w))"
  have l: "b < length ls'"
    and m: "\<forall>k \<le> b. str_in marker (ls' ! k) = str_in marker (ls ! k)"
    and s: "\<forall>k \<le> b. strip (ls' ! k) = strip (ls ! k)"
    unfolding ls_def ls'_def using second_lines_agree[OF f, of p] by simp_all
  have i: "i < length ls" "str_in marker (ls ! i)" "\<forall>k < i. \<not> str_in marker (ls ! k)"
    using a(1) unfolding is_anchor_start_nth ls_def by simp_all
  have e: "i \<le> b" "b < length ls" "strip (ls ! b) = close_brace"
      "\<forall>j. i \<le> j \<and> j < b \<longrightarrow> strip (ls ! j) \<noteq> close_brace"
    using a(2) unfolding is_block_end_nth ls_def by simp_all
  have 1: "i < length ls'" using e(1) l by simp
  have 2: "str_in marker (ls' ! i)" using m e(1) i(2) by simp
  have 3: "\<forall>k < i. \<not> str_in marker (ls' ! k)" using m e(1) i(3) by simp
  have 4: "strip (ls' ! b) = close_brace" using s e(3) by simp
  have 5: "\<forall>j. i \<le> j \<and> j < b \<longrightarrow> strip (ls' ! j) \<noteq> close_brace" using s e(4) by simp
  have "is_anchor_start ls' i" unfolding is_anchor_start_nth using 1 2 3 by simp
  moreover have "is_block_end ls' i b" unfolding is_block_end_nth using e(1) l 4 5 by simp
  ultimately show ?thesis unfolding ls'_def by simp
qed

text \<open>
  Claim C9, as amended.  After a successful run with boundary \<open>b\<close>, a second run finds
  the same first line with the marker and the same boundary line \<open>b\<close>.  It leaves the
  content of the file as the first run left it exactly when the boundary line ended with a
  line terminator.  When it did not (the boundary line is the last line of the file and has
  no terminator), the first character of \<open>new_types\<close>, an LF, becomes its terminator, and
  the content after the second run is that after the first with one more line separator
  between the kept lines and \<open>new_types\<close>.  A third run leaves the content as the second
  run left it.
\<close>

theorem second_run_content:
  assumes "limit_end_index (lines_of (disk w)) = int b"
  shows "limit_end_index (lines_of (disk (main p w))) = int b \<and>
    (\<exists>i. is_anchor_start (lines_of (disk w)) i \<and> is_block_end (lines_of (disk w)) i b \<and>
       is_anchor_start (lines_of (disk (main p w))) i \<and>
       is_block_end (lines_of (disk (main p w))) i b) \<and>
    (disk (main p (main p w)) = disk (main p w) \<longleftrightarrow> last (lines_of (disk w) ! b) = LF) \<and>
    (last (lines_of (disk w) ! b) \<noteq> LF \<longrightarrow>
       disk (main p w) =
         newline_out p (concat (take (Suc b) (lines_of (disk w)))) @ newline_out p new_types \<and>
       disk (main p (main p w)) =
         newline_out p (concat (take (Suc b) (lines_of (disk w)))) @ linesep p @
         newline_out p new_types) \<and>
    disk (main p (main p (main p w))) = disk (main p (main p w))"
proof (intro conjI)
  show "limit_end_index (lines_of (disk (main p w))) = int b"
    using assms by (rule second_run_same_index)
  obtain i where i: "is_anchor_start (lines_of (disk w)) i" "is_block_end (lines_of (disk w)) i b"
    using assms unfolding limit_end_index_spec by blast
  then show "\<exists>i. is_anchor_start (lines_of (disk w)) i \<and> is_block_end (lines_of (disk w)) i b \<and>
       is_anchor_start (lines_of (disk (main p w))) i \<and>
       is_block_end (lines_of (disk (main p w))) i b"
    using second_run_same_lines[OF assms i, of p] by blast
  show "disk (main p (main p w)) = disk (main p w) \<longleftrightarrow> last (lines_of (disk w) ! b) = LF"
    using second_run_disk_terminated[OF assms] second_run_disk_unterminated(2)[OF assms]
    by blast
  show "last (lines_of (disk w) ! b) \<noteq> LF \<longrightarrow>
       disk (main p w) =
         newline_out p (concat (take (Suc b) (lines_of (disk w)))) @ newline_out p new_types \<and>
       disk (main p (main p w)) =
         newline_out p (concat (take (Suc b) (lines_of (disk w)))) @ linesep p @
         newline_out p new_types"
    using second_run_disk_unterminated(1)[OF assms]
    by (simp add: main_found[OF assms] newline_out_append)
  show "disk (main p (main p (main p w))) = disk (main p (main p w))"
    using assms by (rule third_run_disk)
qed

text \<open>
  The scenario of the specification, run twice, and the file whose closing brace is its
  last character, run three times, where the separator is CR LF.
\<close>

theorem second_run_content_witness:
  "limit_end_index (lines_of (disk (start doc_scenario))) = 2 \<and>
   last (lines_of (disk (start doc_scenario)) ! 2) = LF \<and>
   limit_end_index (lines_of (disk (main Windows (start doc_scenario)))) = 2 \<and>
   disk (main Windows (main Windows (start doc_scenario))) =
     disk (main Windows (start doc_scenario)) \<and>
   limit_end_index (lines_of (disk (start doc_unterminated))) = 1 \<and>
   last (lines_of (disk (start doc_unterminated)) ! 1) \<noteq> LF \<and>
   disk (main Windows (main Windows (start doc_unterminated))) =
     newline_out Windows (concat (take 2 (lines_of (disk (start doc_unterminated))))) @
     [CR, LF] @ newline_out Windows new_types \<and>
   disk (main Windows (main Windows (main Windows (start doc_unterminated)))) =
     disk (main Windows (main Windows (start doc_unterminated)))"
proof -
  have f: "limit_end_index (lines_of (disk (start doc_scenario))) = int 2"
    unfolding disk_start by (rule limit_doc_scenario)
  have t: "last (lines_of (disk (start doc_scenario)) ! 2) = LF"
    by (simp add: disk_start lines_of_doc_scenario py_def LF_def)
  have g: "limit_end_index (lines_of (disk (start doc_unterminated))) = int 1"
    unfolding disk_start by (rule limit_doc_unterminated)
  have u: "last (lines_of (disk (start doc_unterminated)) ! 1) \<noteq> LF"
    by (simp add: disk_start lines_of_doc_unterminated py_def LF_def)
  have 1: "limit_end_index (lines_of (disk (main Windows (start doc_scenario)))) = int 2 \<and>
      disk (main Windows (main Windows (start doc_scenario))) =
        disk (main Windows (start doc_scenario))"
    using t second_run_content[OF f, of Windows] by blast
  have 2: "disk (main Windows (main Windows (start doc_unterminated))) =
      newline_out Windows (concat (take (Suc 1) (lines_of (disk (start doc_unterminated))))) @
      linesep Windows @ newline_out Windows new_types \<and>
    disk (main Windows (main Windows (main Windows (start doc_unterminated)))) =
      disk (main Windows (main Windows (start doc_unterminated)))"
    using u second_run_content[OF g, of Windows] by blast
  have n: "Suc 1 = 2" by simp
  show ?thesis using f t g u 1 2 unfolding n by simp
qed

text \<open>
  Claim C9 as stated fails on a file whose closing brace is its last character: the second
  run puts one more LF before \<open>new_types\<close>.
\<close>

theorem second_run_content_counterexample:
  "limit_end_index (lines_of doc_unterminated) = 1 \<and>
   disk (main Posix (start doc_unterminated)) =
     py ''export interface TransactionLimit {\<newline>'' @ py ''}'' @ new_types \<and>
   disk (main Posix (main Posix (start doc_unterminated))) =
     py ''export interface TransactionLimit {\<newline>'' @ py ''}'' @ [LF] @ new_types \<and>
   disk (main Posix (main Posix (start doc_unterminated))) \<noteq>
     disk (main Posix (start doc_unterminated))"
proof -
  have f: "limit_end_index (lines_of (disk (start doc_unterminated))) = int 1"
    unfolding disk_start by (rule limit_doc_unterminated)
  have t: "last (lines_of (disk (start doc_unterminated)) ! 1) \<noteq> LF"
    by (simp add: disk_start lines_of_doc_unterminated py_def LF_def)
  have 1: "disk (main Posix (start doc_unterminated)) =
     py ''export interface TransactionLimit {\<newline>'' @ py ''}'' @ new_types"
    by (simp add: main_found[OF f] newline_out_Posix disk_start lines_of_doc_unterminated)
  have 2: "disk (main Posix (main Posix (start doc_unterminated))) =
     py ''export interface TransactionLimit {\<newline>'' @ py ''}'' @ [LF] @ new_types"
    unfolding second_run_disk_unterminated(1)[OF f t]
    by (simp add: newline_out_Posix disk_start lines_of_doc_unterminated)
  show ?thesis
    using 1 2 limit_doc_unterminated second_run_disk_unterminated(2)[OF f t, of Posix]
    by simp
qed







end
